theory Spec2Isabelle
  imports Complex_Main "HOL-Library.Word"
begin

unbundle bit_operations_syntax

section \<open>JavaScript numbers and the 32-bit operators\<close>

text \<open>
  The encoder produces a JavaScript binary string: every character has a code below 256.
  It is modelled as a list of bytes.
\<close>

type_synonym byte = "8 word"
type_synonym bytes = "byte list"

text \<open>
  The integer encoder only ever sees numbers without a fractional part, so its argument is
  an \<open>int\<close>. The bitwise operators of JavaScript first convert their operands to 32 bits:
  \<open>&\<close>, \<open>|\<close> and \<open>>>\<close> to a signed value (ToInt32), \<open>>>>\<close> to an unsigned one (ToUint32).
  A number with a fractional part is truncated towards zero before that.
\<close>

definition ToInt32 :: "int \<Rightarrow> int" where
  "ToInt32 n = (let m = n mod 2 ^ 32 in if m \<ge> 2 ^ 31 then m - 2 ^ 32 else m)"

definition ToUint32 :: "int \<Rightarrow> int" where
  "ToUint32 n = n mod 2 ^ 32"

definition js_trunc :: "rat \<Rightarrow> int" where
  "js_trunc x = (if x < 0 then - \<lfloor>- x\<rfloor> else \<lfloor>x\<rfloor>)"

definition js_and :: "int \<Rightarrow> int \<Rightarrow> int" where
  "js_and a b = ToInt32 a AND ToInt32 b"

definition js_or :: "int \<Rightarrow> int \<Rightarrow> int" where
  "js_or a b = ToInt32 a OR ToInt32 b"

text \<open>\<open>a >> k\<close>: arithmetic shift of the signed 32-bit value.\<close>

definition js_sar :: "int \<Rightarrow> nat \<Rightarrow> int" where
  "js_sar a k = drop_bit (k mod 32) (ToInt32 a)"

text \<open>\<open>a >>> k\<close>: logical shift of the unsigned 32-bit value.\<close>

definition js_shr :: "int \<Rightarrow> nat \<Rightarrow> int" where
  "js_shr a k = drop_bit (k mod 32) (ToUint32 a)"

text \<open>
  \<open>CHR\<close> is the table of package \<open>ascii-chr\<close>: entry \<open>i\<close>, for \<open>0 \<le> i < 256\<close>, is the
  one-character string with code \<open>i\<close>. Any other index reads \<open>undefined\<close>, which string
  concatenation turns into the text \<open>undefined\<close>.
\<close>

definition CHR_tab :: "int \<Rightarrow> bytes" where
  "CHR_tab i = (if 0 \<le> i \<and> i < 256 then [word_of_int i] else map of_char ''undefined'')"

section \<open>The integer encoder\<close>

text \<open>
  The two copies of the encoder under \<open>dist\<close> differ, for integers, only in the bytes
  returned outside the safe range.
\<close>

datatype variant = V8_6_2 | V8v62_cjs

text \<open>
  \<open>encodeInt64(hi, lo)\<close> of \<open>dist/v8-6.2/Encoder.js\<close>; the copy under \<open>dist/v8v62/cjs\<close>
  imports a function of the same name from \<open>./encoders\<close>, taken to be this one.
\<close>

definition encodeInt64 :: "int \<Rightarrow> int \<Rightarrow> bytes" where
  "encodeInt64 hi lo =
     CHR_tab (js_and (js_sar hi 24) 0xff)
   @ CHR_tab (js_and (js_sar hi 16) 0xff)
   @ CHR_tab (js_and (js_sar hi 8) 0xff)
   @ CHR_tab (js_and hi 0xff)
   @ CHR_tab (js_and (js_sar lo 24) 0xff)
   @ CHR_tab (js_and (js_sar lo 16) 0xff)
   @ CHR_tab (js_and (js_sar lo 8) 0xff)
   @ CHR_tab (js_and lo 0xff)"

text \<open>
  The source compares with the literal \<open>-0x20000000000001\<close>. A literal denotes the double
  nearest to it, and \<open>2 ^ 53 + 1\<close> is not a double: it lies halfway between \<open>2 ^ 53\<close> and
  \<open>2 ^ 53 + 2\<close> and is rounded to the one with the even significand, \<open>2 ^ 53\<close>. The
  comparison is therefore \<open>num > -0x20000000000000\<close>. Every other literal of the function is
  a double and stands for itself. The division by \<open>0x100000000\<close>, a power of two, is exact.
\<close>

definition encodeInt :: "variant \<Rightarrow> int \<Rightarrow> bytes" where
  "encodeInt var num =
    (if num < 0 then
       (if num > - 0x21 then
          CHR_tab (js_and num 0xff)
        else if num > - 0x81 then
          [0xd0] @ CHR_tab (js_and num 0xff)
        else if num > - 0x8001 then
          [0xd1] @ CHR_tab (js_and (js_sar num 8) 0xff) @ CHR_tab (js_and num 0xff)
        else if num > - 0x80000001 then
          [0xd2] @ CHR_tab (js_and (js_sar num 24) 0xff)
                 @ CHR_tab (js_and (js_sar num 16) 0xff)
                 @ CHR_tab (js_and (js_sar num 8) 0xff)
                 @ CHR_tab (js_and num 0xff)
        else if num > - 0x20000000000000 then
          [0xd3] @ encodeInt64
                     (js_sar (js_trunc (of_int num / 0x100000000)) 0 - 1)
                     (js_shr num 0)
        else (case var of
                V8_6_2 \<Rightarrow> [0xd3, 0xff, 0xdf, 0xff, 0xff, 0xff, 0xff, 0xff, 0xff]
              | V8v62_cjs \<Rightarrow> [0xcb, 0xff, 0xf0, 0x00, 0x00, 0x00, 0x00, 0x00, 0x00]))
     else if num < 0x80 then
       CHR_tab num
     else if num < 0x100 then
       [0xcc] @ CHR_tab num
     else if num < 0x10000 then
       [0xcd] @ CHR_tab (js_sar num 8) @ CHR_tab (js_and num 0xff)
     else if num < 0x100000000 then
       [0xce] @ CHR_tab (js_and (js_sar num 24) 0xff)
              @ CHR_tab (js_and (js_sar num 16) 0xff)
              @ CHR_tab (js_and (js_sar num 8) 0xff)
              @ CHR_tab (js_and num 0xff)
     else if num < 0x20000000000000 then
       [0xcf] @ encodeInt64 (js_or (js_shr num 11) 1) num
     else (case var of
             V8_6_2 \<Rightarrow> [0xcf, 0x00, 0x20, 0x00, 0x00, 0x00, 0x00, 0x00, 0x00]
           | V8v62_cjs \<Rightarrow> [0xcb, 0x7f, 0xf0, 0x00, 0x00, 0x00, 0x00, 0x00, 0x00]))"


text \<open>\<open>encodeNil\<close> and \<open>encodeBool\<close>.\<close>

definition encodeNil :: bytes where
  "encodeNil = [0xc0]"

definition encodeBool :: "bool \<Rightarrow> bytes" where
  "encodeBool b = (if b then [0xc3] else [0xc2])"

section \<open>Strings and the scratch buffer\<close>

text \<open>
  A string is modelled by its sequence of Unicode code points (a well-formed string, without
  unpaired surrogates). \<open>str.length\<close> counts UTF-16 code units: two for a code point above
  the basic plane, one otherwise.
\<close>

type_synonym jsstring = "nat list"

definition units :: "nat \<Rightarrow> nat" where
  "units c = (if c < 0x10000 then 1 else 2)"

definition js_length :: "jsstring \<Rightarrow> nat" where
  "js_length str = sum_list (map units str)"

text \<open>The UTF-8 bytes of one code point.\<close>

definition utf8 :: "nat \<Rightarrow> bytes" where
  "utf8 c =
    (if c < 0x80 then [of_nat c]
     else if c < 0x800 then [of_nat (0xc0 + c div 64), of_nat (0x80 + c mod 64)]
     else if c < 0x10000 then
       [of_nat (0xe0 + c div 4096), of_nat (0x80 + c div 64 mod 64), of_nat (0x80 + c mod 64)]
     else
       [of_nat (0xf0 + c div 262144 mod 8), of_nat (0x80 + c div 4096 mod 64),
        of_nat (0x80 + c div 64 mod 64), of_nat (0x80 + c mod 64)])"

text \<open>\<open>utf8toBin\<close> of package \<open>utf8-bin\<close>: the UTF-8 bytes of the string, as a binary string.\<close>

definition utf8toBin :: "jsstring \<Rightarrow> bytes" where
  "utf8toBin str = concat (map utf8 str)"

text \<open>
  The buffer operations of the host. \<open>Buffer.allocUnsafe(n)\<close> returns a buffer of \<open>n\<close> bytes
  of unspecified content (zeros here; nothing below reads a byte that was not written
  first). \<open>buf.utf8Write(str, 0)\<close> writes the UTF-8 bytes of \<open>str\<close> from offset 0 for as
  long as whole characters fit into the buffer, and returns the number of bytes written.
  \<open>buf.latin1Slice(start, end)\<close> copies the bytes from \<open>start\<close> up to \<open>end\<close> out as a binary
  string.
\<close>

definition alloc :: "nat \<Rightarrow> bytes" where
  "alloc n = replicate n 0"

fun utf8_fit :: "nat \<Rightarrow> jsstring \<Rightarrow> bytes" where
  "utf8_fit cap [] = []"
| "utf8_fit cap (c # cs) =
     (if length (utf8 c) \<le> cap then utf8 c @ utf8_fit (cap - length (utf8 c)) cs else [])"

definition utf8Write :: "bytes \<Rightarrow> jsstring \<Rightarrow> bytes \<times> nat" where
  "utf8Write buf str =
     (let written = utf8_fit (length buf) str
      in (written @ drop (length written) buf, length written))"

definition latin1Slice :: "bytes \<Rightarrow> nat \<Rightarrow> nat \<Rightarrow> bytes" where
  "latin1Slice buf start end = take (end - start) (drop start buf)"

section \<open>Values, errors and the encoder object\<close>

datatype jsnumber = Finite rat | NaN | PosInfinity | NegInfinity

text \<open>
  The values \<open>encode\<close> tells apart. \<open>JExt\<close> is an object whose constructor is \<open>Ext\<close>, with its
  fields \<open>type\<close> and \<open>bin\<close>; \<open>JObject\<close> is any other object that is neither an array nor a
  buffer, given by the name of its class and its own enumerable properties in the order of
  \<open>Object.keys\<close>. \<open>JFunction\<close> carries the source text of the function, \<open>JSymbol\<close> the
  description of the symbol; \<open>JBigInt\<close> is a value of type \<open>bigint\<close>, on hosts that have
  the type.
\<close>

datatype jsvalue =
    JString jsstring
  | JNumber jsnumber
  | JBoolean bool
  | JNull
  | JArray "jsvalue list"
  | JBuffer bytes
  | JExt int bytes
  | JObject string "(jsstring \<times> jsvalue) list"
  | JUndefined
  | JFunction string
  | JSymbol string
  | JBigInt int

datatype jstype = Str | Num | Bool | Obj | Undefined | Function | Symbol | BigInt

fun typeof :: "jsvalue \<Rightarrow> jstype" where
  "typeof (JString s) = Str"
| "typeof (JNumber n) = Num"
| "typeof (JBoolean b) = Bool"
| "typeof JNull = Obj"
| "typeof (JArray arr) = Obj"
| "typeof (JBuffer buf) = Obj"
| "typeof (JExt ty bin) = Obj"
| "typeof (JObject cls props) = Obj"
| "typeof JUndefined = Undefined"
| "typeof (JFunction f) = Function"
| "typeof (JSymbol d) = Symbol"
| "typeof (JBigInt n) = BigInt"

text \<open>
  What a call can throw: \<open>EncodingFailed\<close> with the value and its kind, a \<open>TypeError\<close> of
  the host (a method call on \<open>null\<close>, a symbol converted to a string), or whatever a
  function supplied by the caller throws.
\<close>

datatype error = EncodingFailed jsvalue jstype | TypeError | Thrown string

text \<open>
  \<open>EncodingFailed.withValue(value)\<close> builds the message
  \<open>`Could not encode: ${value} (${typeof value})`\<close> and returns
  \<open>new EncodingFailed(value, message)\<close>. The message is represented by the value and the
  kind it is built from. Interpolating a symbol into a template literal raises a
  \<open>TypeError\<close>, which leaves \<open>withValue\<close> before any error object is built (\<open>Inl\<close>); the
  other values that \<open>encode\<close> hands to its handler (\<open>undefined\<close>, functions, bigints) are
  converted to text and the error object is returned (\<open>Inr\<close>). For the remaining values,
  which \<open>encode\<close> never hands to the handler, the conversion is taken to succeed.
\<close>

definition withValue :: "jsvalue \<Rightarrow> error + error" where
  "withValue v =
     (case v of
        JSymbol d \<Rightarrow> Inl TypeError
      | _ \<Rightarrow> Inr (EncodingFailed v (typeof v)))"

text \<open>
  The mutable fields of an \<open>Encoder\<close>: the scratch buffer (\<open>null\<close> until first allocated)
  and its recorded capacity. A call returns its result, or the exception, together with
  the fields as it leaves them.
\<close>

record encoder_state =
  buffer :: "bytes option"
  bufferAlloc :: nat

type_synonym result = "(error + bytes) \<times> encoder_state"

text \<open>
  A codec, as far as the encoder uses it: \<open>codec.encode(this, value)\<close> returns a binary
  string or \<open>null\<close> (\<open>None\<close>), or throws; it is handed the encoder and may call its methods.
\<close>

record codec =
  codec_type :: int
  codec_encode :: "encoder_state \<Rightarrow> jsvalue \<Rightarrow> (error + bytes option) \<times> encoder_state"

datatype keyenc = EncodeAscii | EncodeStr

text \<open>
  The fields the constructor sets once. \<open>encodeFloat\<close> and \<open>encodeAscii\<close> come from the
  module \<open>./encoders\<close>; \<open>codecs\<close> is \<open>None\<close> for \<open>false\<close>. The names are those of
  \<open>dist/v8-6.2/Encoder.js\<close>; the copy under \<open>dist/v8v62/cjs\<close> calls four of the fields
  \<open>unsupportedType\<close>, \<open>encodeObjectKey\<close>, \<open>bufferLenMin\<close> and \<open>bufferAllocMin\<close>.
\<close>

record encoder =
  variant :: variant
  handler :: "encoder_state \<Rightarrow> jsvalue \<Rightarrow> result"
  encodeFloat :: "jsnumber \<Rightarrow> bytes"
  encodeObjectKeys :: keyenc
  encodeAscii :: "encoder_state \<Rightarrow> jsstring \<Rightarrow> result"
  codecs :: "codec list option"
  bufferMinLen :: nat
  bufferMinAlloc :: nat

section \<open>The string encoder\<close>

text \<open>
  \<open>encodeStr\<close>. Its second half, the length prefix in front of the payload, is written
  apart as \<open>encodeStr_prefix\<close>. Allocation is taken to succeed, and the product for the
  new capacity to be exact (the strings of the host are shorter than \<open>2^30\<close> code units and
  the minimum allocation size is below \<open>2^32\<close>, so the product is below \<open>2^53\<close>).
\<close>

definition encodeStr_prefix :: "nat \<Rightarrow> bytes \<Rightarrow> bytes" where
  "encodeStr_prefix len bin =
    (if len < 0x20 then
       CHR_tab (js_or (int len) 0xa0) @ bin
     else if len < 0x100 then
       [0xd9] @ CHR_tab (int len) @ bin
     else if len < 0x10000 then
       [0xda] @ CHR_tab (js_sar (int len) 8) @ CHR_tab (js_and (int len) 0xff) @ bin
     else
       [0xdb] @ CHR_tab (js_and (js_sar (int len) 24) 0xff)
              @ CHR_tab (js_and (js_sar (int len) 16) 0xff)
              @ CHR_tab (js_and (js_sar (int len) 8) 0xff)
              @ CHR_tab (js_and (int len) 0xff)
              @ bin)"

definition encodeStr :: "encoder \<Rightarrow> encoder_state \<Rightarrow> jsstring \<Rightarrow> result" where
  "encodeStr e st str =
    (let len = js_length str in
     if len = 0 then (Inr [0xa0], st)
     else if len < bufferMinLen e then
       (let bin = utf8toBin str; len = length bin
        in (Inr (encodeStr_prefix len bin), st))
     else
       (let st1 = (if len > bufferAlloc st then
                     (let a = bufferMinAlloc e * nat (js_or (js_shr (int len) 10) 2)
                      in st\<lparr>bufferAlloc := a, buffer := Some (alloc a)\<rparr>)
                   else st)
        in case buffer st1 of
             None \<Rightarrow> (Inl TypeError, st1)
           | Some buf \<Rightarrow>
               (let (buf', len) = utf8Write buf str;
                    bin = latin1Slice buf' 0 len
                in (Inr (encodeStr_prefix len bin), st1\<lparr>buffer := Some buf'\<rparr>))))"

section \<open>Binary and extension encoders\<close>

definition encodeBin :: "bytes \<Rightarrow> bytes" where
  "encodeBin buf =
    (let len = length buf in
     if len = 0 then [0xc4, 0x00]
     else
       (let bin = (if len < 7 then concat (map (\<lambda>b. CHR_tab (uint b)) buf)
                   else latin1Slice buf 0 len)
        in if len < 0x100 then
             [0xc4] @ CHR_tab (int len) @ bin
           else if len < 0x10000 then
             [0xc5] @ CHR_tab (js_sar (int len) 8) @ CHR_tab (js_and (int len) 0xff) @ bin
           else
             [0xc6] @ CHR_tab (js_and (js_sar (int len) 24) 0xff)
                    @ CHR_tab (js_and (js_sar (int len) 16) 0xff)
                    @ CHR_tab (js_and (js_sar (int len) 8) 0xff)
                    @ CHR_tab (js_and (int len) 0xff)
                    @ bin))"

definition encodeExt :: "int \<Rightarrow> bytes \<Rightarrow> bytes" where
  "encodeExt ty bin =
    (let ext = CHR_tab (js_and ty 0x7f) @ bin; len = length bin in
     if len = 1 then [0xd4] @ ext
     else if len = 2 then [0xd5] @ ext
     else if len = 4 then [0xd6] @ ext
     else if len = 8 then [0xd7] @ ext
     else if len = 16 then [0xd8] @ ext
     else if len < 0x100 then
       [0xc7] @ CHR_tab (int len) @ ext
     else if len < 0x10000 then
       [0xc8] @ CHR_tab (js_sar (int len) 8) @ CHR_tab (js_and (int len) 0xff) @ ext
     else
       [0xc9] @ CHR_tab (js_and (js_sar (int len) 24) 0xff)
              @ CHR_tab (js_and (js_sar (int len) 16) 0xff)
              @ CHR_tab (js_and (js_sar (int len) 8) 0xff)
              @ CHR_tab (js_and (int len) 0xff)
              @ ext)"

section \<open>Dispatch, containers and codecs\<close>

text \<open>
  The loop over the codecs in \<open>encode\<close>: \<open>i\<close> starts at \<open>codecs.length\<close>, is decremented
  before each call, and the first result that is not \<open>null\<close> is returned.
\<close>

fun codecs_loop ::
  "codec list \<Rightarrow> nat \<Rightarrow> encoder_state \<Rightarrow> jsvalue \<Rightarrow> (error + bytes option) \<times> encoder_state" where
  "codecs_loop cs 0 st v = (Inr None, st)"
| "codecs_loop cs (Suc i) st v =
     (case codec_encode (cs ! i) st v of
        (Inl err, st') \<Rightarrow> (Inl err, st')
      | (Inr (Some bin), st') \<Rightarrow> (Inr (Some bin), st')
      | (Inr None, st') \<Rightarrow> codecs_loop cs i st' v)"

text \<open>The count prefix of \<open>encodeArray\<close> (\<open>fix = 0x90\<close>, tags \<open>0xdc\<close>, \<open>0xdd\<close>) and of
  \<open>encodeObject\<close> (\<open>fix = 0x80\<close>, tags \<open>0xde\<close>, \<open>0xdf\<close>).\<close>

definition count_prefix :: "int \<Rightarrow> byte \<Rightarrow> byte \<Rightarrow> nat \<Rightarrow> bytes" where
  "count_prefix fix t16 t32 len =
    (if len < 0x10 then
       CHR_tab (js_or fix (int len))
     else if len < 0x10000 then
       [t16] @ CHR_tab (js_sar (int len) 8) @ CHR_tab (js_and (int len) 0xff)
     else
       [t32] @ CHR_tab (js_and (js_sar (int len) 24) 0xff)
             @ CHR_tab (js_and (js_sar (int len) 16) 0xff)
             @ CHR_tab (js_and (js_sar (int len) 8) 0xff)
             @ CHR_tab (js_and (int len) 0xff))"

text \<open>
  \<open>encode\<close>, \<open>encodeArray\<close> and \<open>encodeObject\<close>, with the two \<open>for\<close> loops that append the
  encoding of each element, or of each key and its value, to \<open>bin\<close>. An exception leaves
  the loop at once. Arrays are told by \<open>Array.isArray\<close> and keys listed by \<open>Object.keys\<close>,
  the defaults of both copies. \<open>encodeMap\<close> of \<open>dist/v8-6.2/Encoder.js\<close> is not called by
  \<open>encode\<close> and is left out.
\<close>

function (sequential) encode :: "encoder \<Rightarrow> encoder_state \<Rightarrow> jsvalue \<Rightarrow> result"
  and encodeArray :: "encoder \<Rightarrow> encoder_state \<Rightarrow> jsvalue list \<Rightarrow> result"
  and encodeArray_loop :: "encoder \<Rightarrow> encoder_state \<Rightarrow> jsvalue list \<Rightarrow> bytes \<Rightarrow> result"
  and encodeObject :: "encoder \<Rightarrow> encoder_state \<Rightarrow> (jsstring \<times> jsvalue) list \<Rightarrow> result"
  and encodeObject_loop ::
    "encoder \<Rightarrow> encoder_state \<Rightarrow> (jsstring \<times> jsvalue) list \<Rightarrow> bytes \<Rightarrow> result"
where
  "encode e st (JString str) = encodeStr e st str"
| "encode e st (JNumber num) =
     (case num of
        Finite q \<Rightarrow>
          if of_int \<lfloor>q\<rfloor> = q then (Inr (encodeInt (variant e) \<lfloor>q\<rfloor>), st)
          else (Inr (encodeFloat e num), st)
      | _ \<Rightarrow> (Inr (encodeFloat e num), st))"
| "encode e st JNull = (Inr [0xc0], st)"
| "encode e st (JArray arr) = encodeArray e st arr"
| "encode e st (JBuffer buf) = (Inr (encodeBin buf), st)"
| "encode e st (JExt ty bin) = (Inr (encodeExt ty bin), st)"
| "encode e st (JObject cls props) =
     (case codecs e of
        None \<Rightarrow> encodeObject e st props
      | Some cs \<Rightarrow>
          (case codecs_loop cs (length cs) st (JObject cls props) of
             (Inl err, st') \<Rightarrow> (Inl err, st')
           | (Inr (Some bin), st') \<Rightarrow> (Inr bin, st')
           | (Inr None, st') \<Rightarrow> encodeObject e st' props))"
| "encode e st (JBoolean b) = (Inr (if b then [0xc3] else [0xc2]), st)"
| "encode e st JUndefined = handler e st JUndefined"
| "encode e st (JFunction f) = handler e st (JFunction f)"
| "encode e st (JSymbol d) = handler e st (JSymbol d)"
| "encode e st (JBigInt n) = handler e st (JBigInt n)"
| "encodeArray e st arr =
     (let len = length arr in
      if len = 0 then (Inr [0x90], st)
      else encodeArray_loop e st arr (count_prefix 0x90 0xdc 0xdd len))"
| "encodeArray_loop e st [] bin = (Inr bin, st)"
| "encodeArray_loop e st (x # xs) bin =
     (case encode e st x of
        (Inl err, st') \<Rightarrow> (Inl err, st')
      | (Inr b, st') \<Rightarrow> encodeArray_loop e st' xs (bin @ b))"
| "encodeObject e st props =
     (let len = length props in
      if len = 0 then (Inr [0x80], st)
      else encodeObject_loop e st props (count_prefix 0x80 0xde 0xdf len))"
| "encodeObject_loop e st [] bin = (Inr bin, st)"
| "encodeObject_loop e st ((key, val) # props) bin =
     (case (case encodeObjectKeys e of
              EncodeAscii \<Rightarrow> encodeAscii e st key
            | EncodeStr \<Rightarrow> encodeStr e st key) of
        (Inl err, st') \<Rightarrow> (Inl err, st')
      | (Inr k, st') \<Rightarrow>
          (case encode e st' val of
             (Inl err, st'') \<Rightarrow> (Inl err, st'')
           | (Inr b, st'') \<Rightarrow> encodeObject_loop e st'' props (bin @ k @ b)))"
  by pat_completeness auto

termination
  by (relation "measure (\<lambda>x. case x of
        Inl (Inl (e, st, v)) \<Rightarrow> 2 * size v
      | Inl (Inr (e, st, arr)) \<Rightarrow> 2 * size_list size arr + 1
      | Inr (Inl (e, st, arr, bin)) \<Rightarrow> 2 * size_list size arr
      | Inr (Inr (Inl (e, st, props))) \<Rightarrow>
          2 * size_list (size_prod (\<lambda>_. 0) size) props + 1
      | Inr (Inr (Inr (e, st, props, bin))) \<Rightarrow>
          2 * size_list (size_prod (\<lambda>_. 0) size) props)") auto

section \<open>The constructor\<close>

text \<open>
  Modelled from the spec: the default unsupported-value handler, \<open>throwsEncoderHandler\<close> of
  \<open>./handlers\<close>, is not among the sources. By the specification it signals an
  \<open>EncodingFailed\<close> error carrying the offending value and its kind: it throws the error
  that \<open>EncodingFailed.withValue\<close>, the one factory of that error, builds from the value.
  An exception raised while the error is built reaches the caller in its place.
\<close>

definition throwsEncoderHandler :: "encoder_state \<Rightarrow> jsvalue \<Rightarrow> result" where
  "throwsEncoderHandler st v =
     (case withValue v of
        Inl err \<Rightarrow> (Inl err, st)
      | Inr failed \<Rightarrow> (Inl failed, st))"

text \<open>
  The module \<open>./encoders\<close> is not among the sources either; what the constructor takes from
  it is a parameter.
\<close>

record encoders =
  selectEncoderFloat :: "string \<Rightarrow> jsnumber \<Rightarrow> bytes"
  encoders_encodeAscii :: "encoder_state \<Rightarrow> jsstring \<Rightarrow> result"

text \<open>
  The options of \<open>new Encoder({...})\<close> and their defaults. The copy under \<open>dist/v8v62/cjs\<close>
  calls three of them \<open>objectKey\<close>, \<open>bufferLenMin\<close> and \<open>bufferAllocMin\<close>.
\<close>

record options =
  float :: string
  objectKeys :: string
  opt_bufferMinLen :: int
  opt_bufferMinAlloc :: int
  opt_handler :: "encoder_state \<Rightarrow> jsvalue \<Rightarrow> result"
  opt_codecs :: "codec list option"

definition default_options :: options where
  "default_options =
     \<lparr>float = ''64'', objectKeys = ''ascii'', opt_bufferMinLen = 15,
      opt_bufferMinAlloc = 2048, opt_handler = throwsEncoderHandler, opt_codecs = None\<rparr>"

definition Encoder :: "variant \<Rightarrow> encoders \<Rightarrow> options \<Rightarrow> encoder" where
  "Encoder var m opts =
     \<lparr>variant = var,
      handler = opt_handler opts,
      encodeFloat = selectEncoderFloat m (float opts),
      encodeObjectKeys = (if objectKeys opts = ''ascii'' then EncodeAscii else EncodeStr),
      encodeAscii = encoders_encodeAscii m,
      codecs = opt_codecs opts,
      bufferMinLen = nat (js_shr (opt_bufferMinLen opts) 0),
      bufferMinAlloc = nat (js_shr (opt_bufferMinAlloc opts) 0)\<rparr>"

definition initial_state :: encoder_state where
  "initial_state = \<lparr>buffer = None, bufferAlloc = 0\<rparr>"

text \<open>
  \<open>UndefinedCodec\<close>: its type is \<open>0x0a\<close> and its \<open>encode\<close> returns \<open>null\<close> whatever it is
  given. The encoder calls neither \<open>supports\<close> nor \<open>decode\<close>.
\<close>

definition UndefinedCodec :: codec where
  "UndefinedCodec = \<lparr>codec_type = 0x0a, codec_encode = (\<lambda>st v. (Inr None, st))\<rparr>"

text \<open>
  For evaluating calls on concrete strings: stand-ins for the functions of \<open>./encoders\<close>,
  which such a call never reaches.
\<close>

definition standin_encoders :: encoders where
  "standin_encoders =
     \<lparr>selectEncoderFloat = (\<lambda>precision num. []),
      encoders_encodeAscii = (\<lambda>st key. (Inr (encodeStr_prefix (length key) (map of_nat key)), st))\<rparr>"

section \<open>Sequences of calls\<close>

text \<open>The states an encoder goes through in a sequence of \<open>encode\<close> calls, one per call.\<close>

fun encode_calls :: "encoder \<Rightarrow> encoder_state \<Rightarrow> jsvalue list \<Rightarrow> encoder_state list" where
  "encode_calls e st [] = []"
| "encode_calls e st (v # vs) =
     (let st' = snd (encode e st v) in st' # encode_calls e st' vs)"

section \<open>The statements of the specification\<close>

text \<open>Four bytes, most significant first.\<close>

definition be32 :: "int \<Rightarrow> bytes" where
  "be32 x =
     [word_of_int (x div 2 ^ 24), word_of_int (x div 2 ^ 16), word_of_int (x div 2 ^ 8),
      word_of_int x]"

text \<open>
  The 8-byte big-endian two's-complement representation of an integer: the high half is
  \<open>\<lfloor>n / 2^32\<rfloor>\<close>, the low half \<open>n mod 2^32\<close>.
\<close>

definition spec_int64 :: "int \<Rightarrow> bytes" where
  "spec_int64 n = be32 (n div 2 ^ 32) @ be32 (n mod 2 ^ 32)"

text \<open>
  The growth policy in the words of the specification: the minimum allocation size times
  \<open>max(2, \<lceil>length / 1024\<rceil>)\<close>.
\<close>

definition spec_capacity :: "nat \<Rightarrow> nat \<Rightarrow> nat" where
  "spec_capacity minAlloc len = minAlloc * max 2 ((len + 1023) div 1024)"

text \<open>
  Codec resolution in the words of the specification: the codecs are tried in the given
  order, and the first result that is not \<open>null\<close> is accepted.
\<close>

fun spec_first_codec ::
  "codec list \<Rightarrow> encoder_state \<Rightarrow> jsvalue \<Rightarrow> (error + bytes option) \<times> encoder_state" where
  "spec_first_codec [] st v = (Inr None, st)"
| "spec_first_codec (c # cs) st v =
     (case codec_encode c st v of
        (Inl err, st') \<Rightarrow> (Inl err, st')
      | (Inr (Some bin), st') \<Rightarrow> (Inr (Some bin), st')
      | (Inr None, st') \<Rightarrow> spec_first_codec cs st' v)"

text \<open>
  Map encoding in the words of the specification. The count is embedded in the tag when
  below 16 (fixmap), follows the tag \<open>0xde\<close> in two bytes when below 65536 (map16), and
  the tag \<open>0xdf\<close> in four bytes otherwise (map32), most significant byte first. Then, for
  each property in the order of enumeration, comes the key, encoded by the configured key
  encoder, immediately followed by the encoding of its value. An empty map is the single
  byte \<open>0x80\<close>. An exception raised for a key or a value is the result.
\<close>

definition spec_map_header :: "nat \<Rightarrow> bytes" where
  "spec_map_header n =
     (if n < 16 then [of_nat (0x80 + n)]
      else if n < 65536 then [0xde, of_nat (n div 256), of_nat (n mod 256)]
      else 0xdf # be32 (int n))"

fun spec_map_entries ::
  "encoder \<Rightarrow> encoder_state \<Rightarrow> (jsstring \<times> jsvalue) list \<Rightarrow> result" where
  "spec_map_entries e st [] = (Inr [], st)"
| "spec_map_entries e st ((key, val) # props) =
     (case (case encodeObjectKeys e of
              EncodeAscii \<Rightarrow> encodeAscii e st key
            | EncodeStr \<Rightarrow> encodeStr e st key) of
        (Inl err, st1) \<Rightarrow> (Inl err, st1)
      | (Inr k, st1) \<Rightarrow>
          (case encode e st1 val of
             (Inl err, st2) \<Rightarrow> (Inl err, st2)
           | (Inr b, st2) \<Rightarrow>
               (case spec_map_entries e st2 props of
                  (Inl err, st3) \<Rightarrow> (Inl err, st3)
                | (Inr rest, st3) \<Rightarrow> (Inr (k @ b @ rest), st3))))"

definition spec_map :: "encoder \<Rightarrow> encoder_state \<Rightarrow> (jsstring \<times> jsvalue) list \<Rightarrow> result" where
  "spec_map e st props =
     (case spec_map_entries e st props of
        (Inl err, st') \<Rightarrow> (Inl err, st')
      | (Inr body, st') \<Rightarrow> (Inr (spec_map_header (length props) @ body), st'))"

text \<open>
  Conditions under which the recorded capacity is followed through a call. The strings of
  a value are as long as the host allows (below \<open>2^30\<close> code units). A function supplied by
  the caller (handler, key encoder, codec) leaves the recorded capacity a multiple of the
  minimum allocation size and does not lower it; so does every method of the encoder.
\<close>

fun host_strings :: "jsvalue \<Rightarrow> bool" where
  "host_strings (JString str) = (js_length str < 2 ^ 30)"
| "host_strings (JArray arr) = list_all host_strings arr"
| "host_strings (JObject cls props) =
     list_all (\<lambda>p. js_length (fst p) < 2 ^ 30 \<and> host_strings (snd p)) props"
| "host_strings v = True"

definition capacity_kept :: "nat \<Rightarrow> encoder_state \<Rightarrow> encoder_state \<Rightarrow> bool" where
  "capacity_kept a st st' =
     (a dvd bufferAlloc st \<longrightarrow> a dvd bufferAlloc st' \<and> bufferAlloc st \<le> bufferAlloc st')"

definition keeps_capacity :: "nat \<Rightarrow> (encoder_state \<Rightarrow> 'a \<Rightarrow> 'b \<times> encoder_state) \<Rightarrow> bool" where
  "keeps_capacity a f = (\<forall>st x. capacity_kept a st (snd (f st x)))"

definition callbacks_keep_capacity :: "encoder \<Rightarrow> bool" where
  "callbacks_keep_capacity e =
     (keeps_capacity (bufferMinAlloc e) (handler e)
      \<and> keeps_capacity (bufferMinAlloc e) (encodeAscii e)
      \<and> (case codecs e of
           None \<Rightarrow> True
         | Some cs \<Rightarrow> list_all (\<lambda>c. keeps_capacity (bufferMinAlloc e) (codec_encode c)) cs))"

section \<open>Properties of the 32-bit operators\<close>

lemma js_trunc_div:
  "js_trunc (of_int n / of_int d) =
     (if of_int n / (of_int d :: rat) < 0 then - ((- n) div d) else n div d)"
proof -
  have "- (rat_of_int n / rat_of_int d) = of_int (- n) / of_int d" by simp
  then have "\<lfloor>- (rat_of_int n / rat_of_int d)\<rfloor> = (- n) div d"
    by (simp only: floor_divide_of_int_eq)
  then show ?thesis
    unfolding js_trunc_def by (simp add: floor_divide_of_int_eq)
qed

lemma ToInt32_signed: "ToInt32 n = signed_take_bit 31 n"
proof -
  define m where "m = n mod 4294967296"
  have m: "0 \<le> m" "m < 4294967296" by (simp_all add: m_def)
  have "(n + 2147483648) mod 4294967296 = (m + 2147483648) mod 4294967296"
    unfolding m_def by (simp add: mod_add_left_eq)
  also have "\<dots> = (if m \<ge> 2147483648 then m - 2147483648 else m + 2147483648)"
  proof (cases "m \<ge> 2147483648")
    case True
    have "m + 2147483648 = (m - 2147483648) + 4294967296" by simp
    then have "(m + 2147483648) mod 4294967296 = (m - 2147483648) mod 4294967296"
      by (simp only: mod_add_self2)
    also have "\<dots> = m - 2147483648" using True m by (intro mod_pos_pos_trivial) auto
    finally show ?thesis using True by simp
  next
    case False
    then show ?thesis using m by simp
  qed
  finally show ?thesis
    by (simp add: ToInt32_def signed_take_bit_eq_take_bit_shift take_bit_eq_mod Let_def m_def)
qed

lemma ToInt32_id: "- 2147483648 \<le> n \<Longrightarrow> n < 2147483648 \<Longrightarrow> ToInt32 n = n"
  unfolding ToInt32_signed by (simp add: signed_take_bit_int_eq_self)

lemma and_255: "(y::int) AND 255 = take_bit 8 y"
proof -
  have "(255::int) = mask 8" by (simp add: mask_eq_exp_minus_1)
  then show ?thesis by (simp only: take_bit_eq_mask)
qed

text \<open>\<open>CHR[y & 0xff]\<close> is the low byte of \<open>y\<close>, and \<open>x >> k\<close> keeps the bytes of \<open>x\<close>.\<close>

lemma CHR_tab_and: "CHR_tab (js_and y 0xff) = [word_of_int y]"
proof -
  have 1: "js_and y 0xff = take_bit 8 y"
    unfolding js_and_def ToInt32_signed
    by (auto simp add: and_255 bit_eq_iff bit_simps min_def)
  have 2: "0 \<le> take_bit 8 y" "take_bit 8 y < 256"
    using take_bit_int_less_exp[of 8 y] by simp_all
  have 3: "(word_of_int (take_bit 8 y) :: byte) = word_of_int y"
    by (rule bit_word_eqI) (simp add: bit_simps)
  show ?thesis using 1 2 3 by (simp add: CHR_tab_def)
qed

lemma byte_sar: "k \<le> 24 \<Longrightarrow> (word_of_int (js_sar x k) :: byte) = word_of_int (x div 2 ^ k)"
  unfolding js_sar_def ToInt32_signed
  by (rule bit_word_eqI) (auto simp add: bit_simps simp flip: drop_bit_eq_div)

lemma byte_take32:
  "k \<le> 24 \<Longrightarrow> (word_of_int (drop_bit k (take_bit 32 x)) :: byte) = word_of_int (drop_bit k x)"
  by (rule bit_word_eqI) (auto simp add: bit_simps)

lemma byte_mod32:
  "k \<le> 24 \<Longrightarrow> (word_of_int ((x mod 2 ^ 32) div 2 ^ k) :: byte) = word_of_int (x div 2 ^ k)"
  using byte_take32[of k x] by (simp only: drop_bit_eq_div take_bit_eq_mod)

lemma encodeInt64_be32: "encodeInt64 hi lo = be32 hi @ be32 lo"
  by (simp add: encodeInt64_def CHR_tab_and byte_sar be32_def)

lemma be32_mod: "be32 (x mod 2 ^ 32) = be32 x"
  using byte_mod32[of 24 x] byte_mod32[of 16 x] byte_mod32[of 8 x] byte_mod32[of 0 x]
  by (simp add: be32_def)

lemmas encodeInt_unfold =
  encodeInt_def encodeInt64_def CHR_tab_def js_and_def js_or_def js_sar_def js_shr_def
  ToInt32_def ToUint32_def

section \<open>The integer encoder: 64-bit forms\<close>

text \<open>
  What the int64 branch returns on its whole range: the low half is that of \<open>num\<close>, the high
  half is the quotient truncated towards zero, less one.
\<close>

lemma encodeInt_int64:
  assumes "- (2 ^ 53 - 1) \<le> n" "n \<le> - (2 ^ 31 + 1)"
  shows "encodeInt var n = 0xd3 # be32 (- ((- n) div 2 ^ 32) - 1) @ be32 n"
proof -
  have neg: "rat_of_int n / 4294967296 < 0" using assms by (simp add: divide_less_0_iff)
  have t: "js_trunc (rat_of_int n / 0x100000000) = - ((- n) div 2 ^ 32)"
    using js_trunc_div[of n 4294967296] neg by simp
  have b: "- ((- n) div 2 ^ 32) \<le> 0" "- (2 ^ 21) \<le> - ((- n) div 2 ^ 32)" using assms by simp_all
  have s: "js_sar (- ((- n) div 2 ^ 32)) 0 = - ((- n) div 2 ^ 32)"
    unfolding js_sar_def using b by (simp add: ToInt32_id)
  show ?thesis using assms t s be32_mod[of n]
    by (simp add: encodeInt_def encodeInt64_be32 js_shr_def ToUint32_def)
qed

text \<open>It is the exact representation unless \<open>num\<close> is a multiple of \<open>2^32\<close>.\<close>

lemma encodeInt_int64_exact:
  assumes "- (2 ^ 53 - 1) \<le> n" "n \<le> - (2 ^ 31 + 1)" "n mod 2 ^ 32 \<noteq> 0"
  shows "encodeInt var n = 0xd3 # spec_int64 n"
proof -
  have "- ((- n) div 2 ^ 32) - 1 = n div 2 ^ 32"
    using assms(3) by (simp add: zdiv_zminus1_eq_if)
  then show ?thesis
    using encodeInt_int64[OF assms(1,2), of var] be32_mod[of n] by (simp add: spec_int64_def)
qed

text \<open>
  Claim C1 (the int64 form of every integer from \<open>-(2^53 - 1)\<close> to \<open>-(2^31 + 1)\<close> is exact,
  also at multiples of \<open>2^32\<close>). At \<open>-2^32\<close> the quotient \<open>num / 0x100000000\<close> is \<open>-1\<close> with
  nothing to truncate, and the high half becomes \<open>-2\<close>: the bytes returned are those of
  \<open>-2^33\<close>, not the exact representation, whose high half is \<open>0xffffffff\<close>.
\<close>

theorem encodeInt_int64_at_multiple:
  "encodeInt var (- 4294967296) = [0xd3, 0xff, 0xff, 0xff, 0xfe, 0x00, 0x00, 0x00, 0x00]
   \<and> 0xd3 # spec_int64 (- 4294967296) = [0xd3, 0xff, 0xff, 0xff, 0xff, 0x00, 0x00, 0x00, 0x00]"
  using js_trunc_div[of "- 4294967296" 4294967296]
  by (simp add: encodeInt_unfold spec_int64_def be32_def)

text \<open>
  What the uint64 branch returns on its whole range: the low half is that of \<open>num\<close>, the
  high half is computed from the low 32 bits of \<open>num\<close> alone.
\<close>

lemma encodeInt_uint64:
  assumes "2 ^ 32 \<le> n" "n \<le> 2 ^ 53 - 1"
  shows "encodeInt var n = 0xcf # be32 ((n mod 2 ^ 32) div 2 ^ 11 OR 1) @ be32 n"
proof -
  have r: "0 \<le> (n mod 2 ^ 32) div 2 ^ 11" "(n mod 2 ^ 32) div 2 ^ 11 < 2 ^ 21"
    by simp_all
  have o: "js_or (js_shr n 11) 1 = (n mod 2 ^ 32) div 2 ^ 11 OR 1"
    unfolding js_or_def js_shr_def ToUint32_def using r
    by (simp add: drop_bit_eq_div ToInt32_id)
  show ?thesis using assms o
    by (simp add: encodeInt_def encodeInt64_be32)
qed

text \<open>
  Claim C2 (the uint64 form of every integer from \<open>2^32\<close> to \<open>2^53 - 1\<close> is exact, with high
  half \<open>\<lfloor>n / 2^32\<rfloor>\<close>). At \<open>2^33\<close> the high half passed to \<open>encodeInt64\<close> is
  \<open>num >>> 11 | 1 = 1\<close>: the bytes returned are those of \<open>2^32\<close>, while the exact
  representation has high half 2.
\<close>

theorem encodeInt_uint64_at_2_33:
  "encodeInt var 8589934592 = [0xcf, 0x00, 0x00, 0x00, 0x01, 0x00, 0x00, 0x00, 0x00]
   \<and> 0xcf # spec_int64 8589934592 = [0xcf, 0x00, 0x00, 0x00, 0x02, 0x00, 0x00, 0x00, 0x00]"
  by (simp add: encodeInt_unfold spec_int64_def be32_def)

section \<open>The integer encoder: outside the safe range\<close>

text \<open>
  Claim C3 (below \<open>-(2^53 - 1)\<close> the bytes are \<open>0xcb\<close> and the pattern of \<open>-Infinity\<close>, from
  \<open>2^53\<close> on \<open>0xcb\<close> and the pattern of \<open>+Infinity\<close>). The copy under \<open>dist/v8-6.2\<close> returns
  other bytes: at \<open>2^53\<close> the tag \<open>0xcf\<close> with the 64-bit integer \<open>2^53\<close>.
\<close>

theorem encodeInt_infinity_counterexample:
  "encodeInt V8_6_2 9007199254740992 \<noteq> [0xcb, 0x7f, 0xf0, 0x00, 0x00, 0x00, 0x00, 0x00, 0x00]"
  by (simp add: encodeInt_def)

text \<open>
  Claim C3 as amended: the claim holds of the copy under \<open>dist/v8v62/cjs\<close>. The copy under
  \<open>dist/v8-6.2\<close> returns, for every integer below \<open>-(2^53 - 1)\<close>, the tag \<open>0xd3\<close> with the
  64-bit integer \<open>-(2^53 + 1)\<close>, and for every integer from \<open>2^53\<close> on, the tag \<open>0xcf\<close> with
  the 64-bit integer \<open>2^53\<close>.
\<close>

theorem encodeInt_outside_safe_range:
  assumes "n < - (2 ^ 53 - 1)" and "2 ^ 53 \<le> m"
  shows "encodeInt V8v62_cjs n = [0xcb, 0xff, 0xf0, 0x00, 0x00, 0x00, 0x00, 0x00, 0x00]
       \<and> encodeInt V8v62_cjs m = [0xcb, 0x7f, 0xf0, 0x00, 0x00, 0x00, 0x00, 0x00, 0x00]
       \<and> encodeInt V8_6_2 n = [0xd3, 0xff, 0xdf, 0xff, 0xff, 0xff, 0xff, 0xff, 0xff]
       \<and> encodeInt V8_6_2 m = [0xcf, 0x00, 0x20, 0x00, 0x00, 0x00, 0x00, 0x00, 0x00]"
  using assms by (simp add: encodeInt_def)

theorem encodeInt_outside_safe_range_witness:
  "(- 9007199254740992 :: int) < - (2 ^ 53 - 1) \<and> (2 ^ 53 :: int) \<le> 9007199254740992
   \<and> encodeInt V8v62_cjs (- 9007199254740992)
       = [0xcb, 0xff, 0xf0, 0x00, 0x00, 0x00, 0x00, 0x00, 0x00]
   \<and> encodeInt V8v62_cjs 9007199254740992
       = [0xcb, 0x7f, 0xf0, 0x00, 0x00, 0x00, 0x00, 0x00, 0x00]
   \<and> encodeInt V8_6_2 (- 9007199254740992)
       = [0xd3, 0xff, 0xdf, 0xff, 0xff, 0xff, 0xff, 0xff, 0xff]
   \<and> encodeInt V8_6_2 9007199254740992
       = [0xcf, 0x00, 0x20, 0x00, 0x00, 0x00, 0x00, 0x00, 0x00]"
  using encodeInt_outside_safe_range[of "- 9007199254740992" 9007199254740992] by simp

section \<open>The integer encoder: tier boundaries\<close>

text \<open>
  Claim C9: \<open>encodeInt(127)\<close> is the byte \<open>0x7f\<close>, \<open>encodeInt(128)\<close> the bytes \<open>0xcc 0x80\<close>,
  \<open>encodeInt(-1)\<close> the byte \<open>0xff\<close> and \<open>encodeInt(-33)\<close> the bytes \<open>0xd0 0xdf\<close>, in both
  copies of the encoder.
\<close>

theorem encodeInt_tier_boundaries:
  "encodeInt var 127 = [0x7f]
   \<and> encodeInt var 128 = [0xcc, 0x80]
   \<and> encodeInt var (- 1) = [0xff]
   \<and> encodeInt var (- 33) = [0xd0, 0xdf]"
  by (simp add: encodeInt_unfold)

section \<open>The string encoder and the scratch buffer\<close>

lemma js_length_replicate: "js_length (replicate n c) = n * units c"
  by (induction n) (simp_all add: js_length_def)

lemma shr_or_small:
  assumes "len < 2 ^ 30"
  shows "nat (js_or (js_shr (int len) 10) 2) = len div 1024 OR 2"
proof -
  have l: "int len < 2 ^ 30" using assms by simp
  then have m: "int len mod 2 ^ 32 = int len" by simp
  have d: "int len div 1024 < 2 ^ 20" "0 \<le> int len div 1024" using l by simp_all
  have "js_or (js_shr (int len) 10) 2 = int len div 1024 OR 2"
    unfolding js_or_def js_shr_def ToUint32_def using m d
    by (simp add: drop_bit_eq_div ToInt32_id)
  also have "\<dots> = int (len div 1024 OR 2)"
    by (simp add: of_nat_or_eq zdiv_int)
  finally show ?thesis by simp
qed

lemma utf8_fit_length: "length (utf8_fit cap str) \<le> cap"
  by (induction cap str rule: utf8_fit.induct) auto

lemma utf8_fit_all: "length (utf8toBin str) \<le> cap \<Longrightarrow> utf8_fit cap str = utf8toBin str"
  by (induction cap str rule: utf8_fit.induct) (auto simp add: utf8toBin_def)

lemma utf8_fit_replicate:
  "0 < length (utf8 c) \<Longrightarrow>
   utf8_fit cap (replicate n c) = concat (replicate (min n (cap div length (utf8 c))) (utf8 c))"
proof (induction n arbitrary: cap)
  case 0
  then show ?case by simp
next
  case (Suc n)
  let ?l = "length (utf8 c)"
  show ?case
  proof (cases "?l \<le> cap")
    case True
    then have "cap div ?l = Suc ((cap - ?l) div ?l)"
      using Suc.prems by (simp add: le_div_geq)
    then show ?thesis using True Suc by simp
  next
    case False
    then show ?thesis by simp
  qed
qed

lemma utf8Write_eq:
  "utf8Write buf str =
     (utf8_fit (length buf) str @ drop (length (utf8_fit (length buf) str)) buf,
      length (utf8_fit (length buf) str))"
  by (simp add: utf8Write_def Let_def)

lemma latin1Slice_written: "latin1Slice (w @ rest) 0 (length w) = w"
  by (simp add: latin1Slice_def)

lemma length_written: "length (utf8_fit (length buf) str @ drop (length (utf8_fit (length buf) str)) buf) = length buf"
  using utf8_fit_length[of "length buf" str] by simp

lemma encodeStr_bufferAlloc:
  "bufferAlloc (snd (encodeStr e st str)) =
     (if js_length str \<noteq> 0 \<and> bufferMinLen e \<le> js_length str \<and> bufferAlloc st < js_length str
      then bufferMinAlloc e * nat (js_or (js_shr (int (js_length str)) 10) 2)
      else bufferAlloc st)"
  unfolding encodeStr_def Let_def
  by (simp add: case_prod_beta split: option.split)

lemma encodeStr_direct:
  assumes "js_length str \<noteq> 0" "js_length str < bufferMinLen e"
  shows "encodeStr e st str =
           (Inr (encodeStr_prefix (length (utf8toBin str)) (utf8toBin str)), st)"
  using assms by (simp add: encodeStr_def Let_def)

lemma encodeStr_grow:
  assumes "bufferMinLen e \<le> js_length str" "bufferAlloc st < js_length str"
  shows "fst (encodeStr e st str) =
           Inr (let written = utf8_fit (bufferMinAlloc e * nat (js_or (js_shr (int (js_length str)) 10) 2)) str
                in encodeStr_prefix (length written) written)"
    and "map_option length (buffer (snd (encodeStr e st str))) =
           Some (bufferMinAlloc e * nat (js_or (js_shr (int (js_length str)) 10) 2))"
proof -
  let ?a = "bufferMinAlloc e * nat (js_or (js_shr (int (js_length str)) 10) 2)"
  have n: "js_length str \<noteq> 0" using assms(2) by simp
  have l: "length (alloc ?a) = ?a" by (simp add: alloc_def)
  show "fst (encodeStr e st str) =
           Inr (let written = utf8_fit ?a str in encodeStr_prefix (length written) written)"
    using assms n l by (simp add: encodeStr_def Let_def utf8Write_eq latin1Slice_written)
  show "map_option length (buffer (snd (encodeStr e st str))) = Some ?a"
    using assms n l length_written[of "alloc ?a" str]
    by (simp add: encodeStr_def Let_def utf8Write_eq)
qed

lemma encodeStr_reuse:
  assumes "js_length str \<noteq> 0" "bufferMinLen e \<le> js_length str" "js_length str \<le> bufferAlloc st"
    "buffer st = Some buf"
  shows "fst (encodeStr e st str) =
           Inr (let written = utf8_fit (length buf) str
                in encodeStr_prefix (length written) written)"
  using assms by (simp add: encodeStr_def Let_def utf8Write_eq latin1Slice_written)


lemma Encoder_fields:
  "bufferMinLen (Encoder var m default_options) = 15"
  "bufferMinAlloc (Encoder var m default_options) = 2048"
  "bufferMinLen (Encoder var m (default_options\<lparr>opt_bufferMinLen := 4096\<rparr>)) = 4096"
  "bufferMinAlloc (Encoder var m (default_options\<lparr>opt_bufferMinAlloc := 512\<rparr>)) = 512"
  "bufferMinLen (Encoder var m (default_options\<lparr>opt_bufferMinAlloc := 512\<rparr>)) = 15"
  by (simp_all add: Encoder_def default_options_def js_shr_def ToUint32_def)

lemmas js_eval = js_or_def js_and_def js_sar_def js_shr_def ToInt32_def ToUint32_def CHR_tab_def

lemma utf8_euro: "utf8 0x20AC = [0xe2, 0x82, 0xac]"
  by (simp add: utf8_def)

text \<open>
  Claim C5 (on the scratch-buffer path, when the length exceeds the capacity, the new
  capacity is the minimum allocation size times \<open>max(2, \<lceil>length / 1024\<rceil>)\<close>). A new
  encoder with the default options, given a string of 1024 ASCII characters, records the
  capacity \<open>2048 * (1 | 2) = 6144\<close>, where the claim's formula gives \<open>2048 * 2 = 4096\<close>.
\<close>

theorem encodeStr_growth_counterexample:
  "bufferAlloc (snd (encodeStr (Encoder V8_6_2 standin_encoders default_options) initial_state
      (replicate 1024 97))) = 6144
   \<and> spec_capacity 2048 (js_length (replicate 1024 97)) = 4096"
  by (simp add: encodeStr_bufferAlloc Encoder_fields js_length_replicate units_def
      initial_state_def js_eval spec_capacity_def)

text \<open>
  Claim C5 as amended: on the scratch-buffer path, when the length of the string (in
  UTF-16 code units, below \<open>2^30\<close>) exceeds the recorded capacity, the new capacity, and
  the size of the buffer allocated, is the minimum allocation size times
  \<open>(\<lfloor>length / 1024\<rfloor> bitwise-or 2)\<close>.
\<close>

theorem encodeStr_growth:
  assumes "bufferMinLen e \<le> js_length str" and "bufferAlloc st < js_length str"
    and "js_length str < 2 ^ 30"
  shows "bufferAlloc (snd (encodeStr e st str)) = bufferMinAlloc e * (js_length str div 1024 OR 2)
       \<and> map_option length (buffer (snd (encodeStr e st str)))
           = Some (bufferMinAlloc e * (js_length str div 1024 OR 2))"
  using assms encodeStr_grow(2)[of e str st] by (simp add: encodeStr_bufferAlloc shr_or_small)

theorem encodeStr_growth_witness:
  "bufferAlloc (snd (encodeStr (Encoder V8_6_2 standin_encoders default_options) initial_state
      (replicate 5000 0x20AC))) = 12288
   \<and> map_option length (buffer (snd (encodeStr (Encoder V8_6_2 standin_encoders default_options)
      initial_state (replicate 5000 0x20AC)))) = Some 12288"
  using encodeStr_growth[of "Encoder V8_6_2 standin_encoders default_options"
      "replicate 5000 0x20AC" initial_state]
  by (simp add: Encoder_fields js_length_replicate units_def initial_state_def)

text \<open>
  Claim C6 (two encoders that differ only in the scratch-buffer settings return the same
  bytes for every string). Take a string of 2048 euro signs (three UTF-8 bytes each) and
  two new encoders, one with the default options and one with the inline threshold raised
  to 4096. The first takes the scratch-buffer path with a buffer of \<open>2048 * (2 | 2) = 4096\<close>
  bytes, computed from the 2048 code units; only 1365 characters fit, and it returns a
  \<open>str 16\<close> of 4095 bytes. The second converts the string directly and returns all 6144
  bytes.
\<close>

theorem encodeStr_scratch_truncates:
  "fst (encodeStr (Encoder V8_6_2 standin_encoders default_options) initial_state
          (replicate 2048 0x20AC))
     = Inr ([0xda, 0x0f, 0xff] @ concat (replicate 1365 [0xe2, 0x82, 0xac]))
   \<and> fst (encodeStr
            (Encoder V8_6_2 standin_encoders (default_options\<lparr>opt_bufferMinLen := 4096\<rparr>))
            initial_state (replicate 2048 0x20AC))
     = Inr ([0xda, 0x18, 0x00] @ concat (replicate 2048 [0xe2, 0x82, 0xac]))"
proof -
  have a: "bufferMinLen (Encoder V8_6_2 standin_encoders default_options)
             \<le> js_length (replicate 2048 0x20AC)"
    "bufferAlloc initial_state < js_length (replicate 2048 0x20AC)"
    by (simp_all add: Encoder_fields js_length_replicate units_def initial_state_def)
  have b: "js_length (replicate 2048 0x20AC) \<noteq> 0"
    "js_length (replicate 2048 0x20AC)
       < bufferMinLen (Encoder V8_6_2 standin_encoders (default_options\<lparr>opt_bufferMinLen := 4096\<rparr>))"
    by (simp_all add: Encoder_fields js_length_replicate units_def)
  have 1: "fst (encodeStr (Encoder V8_6_2 standin_encoders default_options) initial_state
          (replicate 2048 0x20AC))
     = Inr ([0xda, 0x0f, 0xff] @ concat (replicate 1365 [0xe2, 0x82, 0xac]))"
    unfolding encodeStr_grow(1)[OF a]
    by (simp add: Encoder_fields js_length_replicate units_def utf8_fit_replicate utf8_euro
        length_concat sum_list_replicate encodeStr_prefix_def js_eval)
  have 2: "fst (encodeStr
            (Encoder V8_6_2 standin_encoders (default_options\<lparr>opt_bufferMinLen := 4096\<rparr>))
            initial_state (replicate 2048 0x20AC))
     = Inr ([0xda, 0x18, 0x00] @ concat (replicate 2048 [0xe2, 0x82, 0xac]))"
    unfolding encodeStr_direct[OF b]
    by (simp add: utf8toBin_def utf8_euro length_concat sum_list_replicate encodeStr_prefix_def
        js_eval)
  show ?thesis using 1 2 by simp
qed

text \<open>
  When the UTF-8 bytes of the string do fit into the buffer, the scratch-buffer path
  returns what the direct conversion returns.
\<close>

lemma encodeStr_grow_fits:
  assumes "bufferMinLen e \<le> js_length str" "bufferAlloc st < js_length str"
    and "length (utf8toBin str)
           \<le> bufferMinAlloc e * nat (js_or (js_shr (int (js_length str)) 10) 2)"
  shows "fst (encodeStr e st str)
           = Inr (encodeStr_prefix (length (utf8toBin str)) (utf8toBin str))"
  using encodeStr_grow(1)[OF assms(1,2)] utf8_fit_all[OF assms(3)] by (simp add: Let_def)

section \<open>Dispatch\<close>

text \<open>
  Claim C4 (\<open>decode(encode(v))\<close> equals \<open>v\<close> for every representable value, integers of the
  safe range included). The decoder is not among the sources, and none is needed here: the
  safe integers \<open>2^33\<close> and \<open>2^32\<close> are encoded to the same bytes, so whatever a decoder
  returns for these bytes, it differs from one of the two.
\<close>

theorem encode_not_injective:
  "encode e st (JNumber (Finite 8589934592))
     = (Inr [0xcf, 0x00, 0x00, 0x00, 0x01, 0x00, 0x00, 0x00, 0x00], st)
   \<and> encode e st (JNumber (Finite 4294967296))
     = (Inr [0xcf, 0x00, 0x00, 0x00, 0x01, 0x00, 0x00, 0x00, 0x00], st)"
  by (simp add: encodeInt_unfold)

text \<open>The loop over the codecs runs through them from the last to the first.\<close>

lemma codecs_loop_take:
  "i \<le> length cs \<Longrightarrow> codecs_loop cs i st v = spec_first_codec (rev (take i cs)) st v"
proof (induction i arbitrary: st)
  case 0
  then show ?case by simp
next
  case (Suc i)
  then have "rev (take (Suc i) cs) = cs ! i # rev (take i cs)"
    by (simp add: take_Suc_conv_app_nth)
  with Suc show ?case
    by (simp split: prod.splits sum.splits option.splits)
qed

text \<open>
  \<open>encodeObject\<close> returns the map encoding of the specification: the count prefix, then
  each key followed by its value.
\<close>

lemma exp_or_take_bit:
  "m \<le> k \<Longrightarrow> (2::int) ^ k OR take_bit m a = 2 ^ k + take_bit m a"
proof -
  assume "m \<le> k"
  then have "(2::int) ^ k AND take_bit m a = 0"
    by (intro bit_eqI) (auto simp add: bit_simps)
  then show ?thesis by (simp add: disjunctive_add_eq_or)
qed

lemma js_or_0x80:
  assumes "n < 16"
  shows "js_or 0x80 (int n) = 0x80 + int n"
proof -
  have t: "take_bit 4 (int n) = int n" using assms by (simp add: take_bit_int_eq_self)
  have "128 OR int n = 128 + int n" using exp_or_take_bit[of 4 7 "int n"] t by simp
  moreover have "ToInt32 (int n) = int n" using assms by (simp add: ToInt32_id)
  ultimately show ?thesis by (simp add: js_or_def ToInt32_id)
qed

lemma CHR_tab_sar8:
  assumes "n < 65536"
  shows "CHR_tab (js_sar (int n) 8) = [of_nat (n div 256)]"
proof -
  have "int n < 65536" using assms by simp
  then have "js_sar (int n) 8 = int n div 256"
    by (simp add: js_sar_def ToInt32_id drop_bit_eq_div)
  moreover have "int n div 256 < 256" using \<open>int n < 65536\<close> by simp
  moreover have "int n div 256 = int (n div 256)" by (simp add: zdiv_int)
  then have "(word_of_int (int n div 256) :: byte) = of_nat (n div 256)"
    by (simp only: of_int_of_nat_eq)
  ultimately show ?thesis by (simp add: CHR_tab_def)
qed

lemma byte_mod_256: "(of_nat (n mod 256) :: byte) = of_nat n"
  by (rule bit_word_eqI) (simp add: bit_simps flip: take_bit_eq_mod[where n = 8, simplified])

lemma count_prefix_map: "count_prefix 0x80 0xde 0xdf n = spec_map_header n"
proof -
  consider "n < 16" | "16 \<le> n" "n < 65536" | "65536 \<le> n" by linarith
  then show ?thesis
  proof cases
    case 1
    then show ?thesis
      by (simp add: count_prefix_def spec_map_header_def js_or_0x80 CHR_tab_def)
  next
    case 2
    then show ?thesis
      by (simp add: count_prefix_def spec_map_header_def CHR_tab_sar8 CHR_tab_and byte_mod_256)
  next
    case 3
    then show ?thesis
      by (simp add: count_prefix_def spec_map_header_def CHR_tab_and byte_sar be32_def)
  qed
qed

lemma encodeObject_loop_entries:
  "encodeObject_loop e st props bin =
     (case spec_map_entries e st props of
        (Inl err, st') \<Rightarrow> (Inl err, st')
      | (Inr body, st') \<Rightarrow> (Inr (bin @ body), st'))"
proof (induction props arbitrary: st bin)
  case Nil
  then show ?case by simp
next
  case (Cons p props)
  obtain key val where p: "p = (key, val)" by (cases p)
  show ?case unfolding p
    by (simp add: Cons.IH split: prod.splits sum.splits keyenc.splits)
qed

lemma encodeObject_spec_map: "encodeObject e st props = spec_map e st props"
proof (cases props)
  case Nil
  then show ?thesis by (simp add: spec_map_def spec_map_header_def)
next
  case (Cons p ps)
  then show ?thesis
    by (simp add: spec_map_def encodeObject_loop_entries count_prefix_map Let_def
        del: spec_map_entries.simps encodeObject_loop.simps split: prod.splits sum.splits)
qed

text \<open>
  Claim C8: for an object that is neither an array, a buffer nor an \<open>Ext\<close>, when codecs are
  registered they are tried from the most recently registered (the last of the list) to
  the least recently registered, and the first result that is not \<open>null\<close> is returned; when
  every codec returns \<open>null\<close>, or none is registered, the value is encoded as the map of
  its enumerable properties: the count prefix, then each key followed by the encoding of
  its value. An exception of a codec ends the call.
\<close>

theorem encode_object_codecs:
  "encode e st (JObject cls props) =
     (case codecs e of
        None \<Rightarrow> spec_map e st props
      | Some cs \<Rightarrow>
          (case spec_first_codec (rev cs) st (JObject cls props) of
             (Inl err, st') \<Rightarrow> (Inl err, st')
           | (Inr (Some bin), st') \<Rightarrow> (Inr bin, st')
           | (Inr None, st') \<Rightarrow> spec_map e st' props))"
  by (simp add: codecs_loop_take encodeObject_spec_map del: encodeObject.simps
      split: option.splits prod.splits sum.splits)

text \<open>
  Two codecs that both claim a value: the bytes of the one registered last are returned.
  One codec that returns \<open>null\<close>: the object \<open>{a: 1, b: null}\<close> is encoded as a map of two
  entries.
\<close>

theorem encode_object_codecs_witness:
  "encode
     ((Encoder V8_6_2 standin_encoders default_options)
        \<lparr>codecs := Some [\<lparr>codec_type = 1, codec_encode = (\<lambda>st v. (Inr (Some [0xd4, 0x01, 0x2a]), st))\<rparr>,
                         \<lparr>codec_type = 2, codec_encode = (\<lambda>st v. (Inr (Some [0xd4, 0x02, 0x2b]), st))\<rparr>]\<rparr>)
     initial_state (JObject ''Date'' [])
     = (Inr [0xd4, 0x02, 0x2b], initial_state)
   \<and> encode
       ((Encoder V8_6_2 standin_encoders (default_options\<lparr>objectKeys := ''utf8''\<rparr>))
          \<lparr>codecs := Some [UndefinedCodec]\<rparr>)
       initial_state
       (JObject ''Object'' [([0x61], JNumber (Finite 1)), ([0x62], JNull)])
     = (Inr [0x82, 0xa1, 0x61, 0x01, 0xa1, 0x62, 0xc0], initial_state)"
proof -
  have 1: "encode
     ((Encoder V8_6_2 standin_encoders default_options)
        \<lparr>codecs := Some [\<lparr>codec_type = 1, codec_encode = (\<lambda>st v. (Inr (Some [0xd4, 0x01, 0x2a]), st))\<rparr>,
                         \<lparr>codec_type = 2, codec_encode = (\<lambda>st v. (Inr (Some [0xd4, 0x02, 0x2b]), st))\<rparr>]\<rparr>)
     initial_state (JObject ''Date'' [])
     = (Inr [0xd4, 0x02, 0x2b], initial_state)"
    unfolding encode_object_codecs by simp
  have 2: "encode
       ((Encoder V8_6_2 standin_encoders (default_options\<lparr>objectKeys := ''utf8''\<rparr>))
          \<lparr>codecs := Some [UndefinedCodec]\<rparr>)
       initial_state
       (JObject ''Object'' [([0x61], JNumber (Finite 1)), ([0x62], JNull)])
     = (Inr [0x82, 0xa1, 0x61, 0x01, 0xa1, 0x62, 0xc0], initial_state)"
    unfolding encode_object_codecs
    by (simp add: UndefinedCodec_def spec_map_def spec_map_header_def Encoder_def
        default_options_def encodeStr_def js_length_def units_def utf8toBin_def utf8_def
        encodeStr_prefix_def encodeInt_unfold)
  show ?thesis using 1 2 by simp
qed

text \<open>
  For a value whose type is none of string, number, boolean and object, \<open>encode\<close> is the
  call of the handler on that value, whatever the codecs are. With the default handler,
  \<open>undefined\<close>, a function and a bigint give the error \<open>EncodingFailed\<close> carrying the value
  and its kind, also when \<open>UndefinedCodec\<close> is registered.
\<close>

lemma encode_calls_handler:
  assumes "typeof v \<notin> {Str, Num, Bool, Obj}"
  shows "encode (e\<lparr>codecs := cs\<rparr>) st v = handler e st v"
  using assms by (cases v) simp_all

lemma encode_default_handler:
  assumes "typeof v \<in> {Undefined, Function, BigInt}"
  shows "encode (Encoder var m (default_options\<lparr>opt_codecs := cs\<rparr>)) st v
           = (Inl (EncodingFailed v (typeof v)), st)"
  using assms
  by (cases v)
     (simp_all add: Encoder_def default_options_def throwsEncoderHandler_def withValue_def)

lemma encode_undefined_with_codec:
  "encode (Encoder var m (default_options\<lparr>opt_codecs := Some [UndefinedCodec]\<rparr>)) st JUndefined
     = (Inl (EncodingFailed JUndefined Undefined), st)"
  using encode_default_handler[where v = JUndefined and cs = "Some [UndefinedCodec]"
      and var = var and m = m and st = st]
  by (simp del: encode.simps)


section \<open>The capacity of the scratch buffer over a sequence of calls\<close>

lemma or_nat_ge: "(m::nat) \<le> m OR n"
proof -
  have "int m \<le> int m OR int n" by (rule or_greater_eq) simp
  then show ?thesis by (simp flip: of_nat_or_eq)
qed

lemma capacity_kept_refl: "capacity_kept a st st"
  by (simp add: capacity_kept_def)

lemma capacity_kept_trans:
  "capacity_kept a st st' \<Longrightarrow> capacity_kept a st' st'' \<Longrightarrow> capacity_kept a st st''"
  by (auto simp add: capacity_kept_def)

lemma encodeStr_keeps:
  assumes "bufferMinAlloc e = 0 \<or> 1024 \<le> bufferMinAlloc e" and "js_length str < 2 ^ 30"
  shows "capacity_kept (bufferMinAlloc e) st (snd (encodeStr e st str))"
proof (cases "js_length str \<noteq> 0 \<and> bufferMinLen e \<le> js_length str \<and> bufferAlloc st < js_length str")
  case False
  then show ?thesis by (auto simp add: capacity_kept_def encodeStr_bufferAlloc)
next
  case True
  let ?a = "bufferMinAlloc e" and ?k = "js_length str div 1024 OR 2"
  have new: "bufferAlloc (snd (encodeStr e st str)) = ?a * ?k"
    using True assms(2) by (simp add: encodeStr_bufferAlloc shr_or_small)
  show ?thesis unfolding capacity_kept_def new
  proof (intro impI conjI)
    show "?a dvd ?a * ?k" by simp
    assume "?a dvd bufferAlloc st"
    then obtain j where j: "bufferAlloc st = ?a * j" by (auto simp add: dvd_def)
    show "bufferAlloc st \<le> ?a * ?k"
    proof (cases "?a = 0")
      case True
      then show ?thesis using j by simp
    next
      case False
      then have "1024 \<le> ?a" using assms(1) by simp
      then have "1024 * j \<le> ?a * j" by simp
      also have "\<dots> < js_length str" using j True by simp
      finally have "j \<le> js_length str div 1024" by (simp add: less_eq_div_iff_mult_less_eq)
      also have "\<dots> \<le> ?k" by (rule or_nat_ge)
      finally show ?thesis using j by simp
    qed
  qed
qed

lemma codecs_loop_keeps:
  "list_all (\<lambda>c. keeps_capacity a (codec_encode c)) cs \<Longrightarrow> i \<le> length cs \<Longrightarrow>
   capacity_kept a st (snd (codecs_loop cs i st v))"
proof (induction i arbitrary: st)
  case 0
  then show ?case by (simp add: capacity_kept_refl)
next
  case (Suc i)
  then have "keeps_capacity a (codec_encode (cs ! i))"
    by (simp add: list_all_length)
  then have 1: "capacity_kept a st (snd (codec_encode (cs ! i) st v))"
    by (simp add: keeps_capacity_def)
  have 2: "capacity_kept a (snd (codec_encode (cs ! i) st v))
             (snd (codecs_loop cs i (snd (codec_encode (cs ! i) st v)) v))"
    using Suc by simp
  show ?case
    using 1 capacity_kept_trans[OF 1 2]
    by (auto split: prod.splits sum.splits option.splits)
qed


lemma encode_keeps:
  assumes A: "bufferMinAlloc e = 0 \<or> 1024 \<le> bufferMinAlloc e"
    and cb: "callbacks_keep_capacity e"
  shows "host_strings v \<Longrightarrow> capacity_kept (bufferMinAlloc e) st (snd (encode e st v))"
    and "list_all host_strings arr \<Longrightarrow>
           capacity_kept (bufferMinAlloc e) st (snd (encodeArray e st arr))"
    and "list_all host_strings arr \<Longrightarrow>
           capacity_kept (bufferMinAlloc e) st (snd (encodeArray_loop e st arr bin))"
    and "list_all (\<lambda>p. js_length (fst p) < 2 ^ 30 \<and> host_strings (snd p)) props \<Longrightarrow>
           capacity_kept (bufferMinAlloc e) st (snd (encodeObject e st props))"
    and "list_all (\<lambda>p. js_length (fst p) < 2 ^ 30 \<and> host_strings (snd p)) props \<Longrightarrow>
           capacity_kept (bufferMinAlloc e) st (snd (encodeObject_loop e st props bin))"
  using assms
proof (induction e st v and e st arr and e st arr bin and e st props and e st props bin
    rule: encode_encodeArray_encodeArray_loop_encodeObject_encodeObject_loop.induct)
  case (1 e st str)
  then show ?case by (simp add: encodeStr_keeps)
next
  case (2 e st num)
  then show ?case by (simp add: capacity_kept_refl split: jsnumber.splits)
next
  case (3 e st)
  then show ?case by (simp add: capacity_kept_refl)
next
  case (4 e st arr)
  then show ?case by simp
next
  case (5 e st buf)
  then show ?case by (simp add: capacity_kept_refl)
next
  case (6 e st ty bin)
  then show ?case by (simp add: capacity_kept_refl)
next
  case (7 e st cls props)
  show ?case
  proof (cases "codecs e")
    case None
    then show ?thesis using 7 by simp
  next
    case (Some cs)
    have k: "list_all (\<lambda>c. keeps_capacity (bufferMinAlloc e) (codec_encode c)) cs"
      using "7.prems" Some by (simp add: callbacks_keep_capacity_def)
    obtain r st1 where l: "codecs_loop cs (length cs) st (JObject cls props) = (r, st1)"
      by (cases "codecs_loop cs (length cs) st (JObject cls props)")
    have 1: "capacity_kept (bufferMinAlloc e) st st1"
      using codecs_loop_keeps[OF k, of "length cs" st "JObject cls props"] l by simp
    show ?thesis
    proof (cases r)
      case (Inl err)
      then show ?thesis using Some l 1 by simp
    next
      case (Inr res)
      show ?thesis
      proof (cases res)
        case None
        have "capacity_kept (bufferMinAlloc e) st1 (snd (encodeObject e st1 props))"
          using "7.IH"(2)[OF Some l[symmetric] Inr None] "7.prems" by simp
        then have "capacity_kept (bufferMinAlloc e) st (snd (encodeObject e st1 props))"
          by (rule capacity_kept_trans[OF 1])
        then show ?thesis using Some l Inr None by (simp del: encodeObject.simps)
      next
        case (Some bin)
        then show ?thesis using \<open>codecs e = Some cs\<close> l Inr 1 by simp
      qed
    qed
  qed
next
  case (8 e st b)
  then show ?case by (simp add: capacity_kept_refl)
next
  case (9 e st)
  then show ?case by (simp add: callbacks_keep_capacity_def keeps_capacity_def)
next
  case (10 e st f)
  then show ?case by (simp add: callbacks_keep_capacity_def keeps_capacity_def)
next
  case (11 e st d)
  then show ?case by (simp add: callbacks_keep_capacity_def keeps_capacity_def)
next
  case (12 e st n)
  then show ?case by (simp add: callbacks_keep_capacity_def keeps_capacity_def)
next
  case (13 e st arr)
  then show ?case by (simp add: capacity_kept_refl Let_def)
next
  case (14 e st bin)
  then show ?case by (simp add: capacity_kept_refl)
next
  case (15 e st x xs bin)
  have 1: "capacity_kept (bufferMinAlloc e) st (snd (encode e st x))"
    using 15 by simp
  show ?case
  proof (cases "encode e st x")
    case (Pair r st')
    show ?thesis
    proof (cases r)
      case (Inl err)
      then show ?thesis using Pair 1 by simp
    next
      case (Inr b)
      have "capacity_kept (bufferMinAlloc e) st' (snd (encodeArray_loop e st' xs (bin @ b)))"
        using "15.IH"(2)[OF Pair[symmetric] Inr] "15.prems" by simp
      then have "capacity_kept (bufferMinAlloc e) st (snd (encodeArray_loop e st' xs (bin @ b)))"
        using capacity_kept_trans[OF 1] Pair by simp
      then show ?thesis using Pair Inr by simp
    qed
  qed
next
  case (16 e st props)
  then show ?case by (simp add: capacity_kept_refl Let_def)
next
  case (17 e st bin)
  then show ?case by (simp add: capacity_kept_refl)
next
  case (18 e st key val props bin)
  let ?a = "bufferMinAlloc e"
  let ?k = "case encodeObjectKeys e of EncodeAscii \<Rightarrow> encodeAscii e st key
            | EncodeStr \<Rightarrow> encodeStr e st key"
  have 1: "capacity_kept ?a st (snd ?k)"
    using "18.prems"
    by (cases "encodeObjectKeys e")
       (simp_all add: encodeStr_keeps callbacks_keep_capacity_def keeps_capacity_def)
  show ?case
  proof (cases ?k)
    case (Pair rk st')
    note pk = this
    show ?thesis
    proof (cases rk)
      case (Inl err)
      then show ?thesis using pk 1 by simp
    next
      case (Inr k)
      note ik = this
      have 2: "capacity_kept ?a st' (snd (encode e st' val))"
        using "18.IH"(1)[OF pk[symmetric] ik] "18.prems" by simp
      have 12: "capacity_kept ?a st (snd (encode e st' val))"
        using capacity_kept_trans[OF 1] 2 pk by simp
      show ?thesis
      proof (cases "encode e st' val")
        case (Pair rv st'')
        note pv = this
        show ?thesis
        proof (cases rv)
          case (Inl err)
          then show ?thesis using pk ik pv 12 by simp
        next
          case (Inr b)
          have "capacity_kept ?a st'' (snd (encodeObject_loop e st'' props (bin @ k @ b)))"
            using "18.IH"(2)[OF pk[symmetric] ik pv[symmetric] Inr] "18.prems" by simp
          then have "capacity_kept ?a st (snd (encodeObject_loop e st'' props (bin @ k @ b)))"
            using capacity_kept_trans[OF 12] pv by simp
          then show ?thesis using pk ik pv Inr by simp
        qed
      qed
    qed
  qed
qed


lemma encode_calls_sorted:
  assumes "bufferMinAlloc e = 0 \<or> 1024 \<le> bufferMinAlloc e"
    and "callbacks_keep_capacity e"
    and "list_all host_strings vs"
    and "bufferMinAlloc e dvd bufferAlloc st"
  shows "sorted (map bufferAlloc (st # encode_calls e st vs))"
  using assms(3,4)
proof (induction vs arbitrary: st)
  case Nil
  then show ?case by simp
next
  case (Cons v vs)
  let ?st' = "snd (encode e st v)"
  have "capacity_kept (bufferMinAlloc e) st ?st'"
    using encode_keeps(1)[OF assms(1,2)] Cons.prems by simp
  then have k: "bufferMinAlloc e dvd bufferAlloc ?st'" "bufferAlloc st \<le> bufferAlloc ?st'"
    using Cons.prems by (simp_all add: capacity_kept_def)
  have "sorted (map bufferAlloc (?st' # encode_calls e ?st' vs))"
    using Cons.IH[OF _ k(1)] Cons.prems by simp
  then show ?case using k(2) by (auto simp add: Let_def)
qed

text \<open>
  Claim C7 (the recorded capacity never shrinks over a sequence of \<open>encode\<close> calls, whatever
  the configuration). Take a new encoder with a minimum allocation size of 512. After a
  string of 1024 characters it records the capacity \<open>512 * (1 | 2) = 1536\<close>. A string of
  2048 characters then exceeds that capacity, and the buffer allocated in its place has
  \<open>512 * (2 | 2) = 1024\<close> bytes: the recorded capacity has shrunk, and the string comes
  back cut to 1024 characters.
\<close>

theorem capacity_shrinks:
  "map bufferAlloc
     (encode_calls (Encoder V8_6_2 standin_encoders (default_options\<lparr>opt_bufferMinAlloc := 512\<rparr>))
        initial_state [JString (replicate 1024 97), JString (replicate 2048 97)])
   = [1536, 1024]
   \<and> fst (encode (Encoder V8_6_2 standin_encoders (default_options\<lparr>opt_bufferMinAlloc := 512\<rparr>))
          (snd (encode
                 (Encoder V8_6_2 standin_encoders (default_options\<lparr>opt_bufferMinAlloc := 512\<rparr>))
                 initial_state (JString (replicate 1024 97))))
          (JString (replicate 2048 97)))
     = Inr ([0xda, 0x04, 0x00] @ concat (replicate 1024 [0x61]))"
proof -
  let ?e = "Encoder V8_6_2 standin_encoders (default_options\<lparr>opt_bufferMinAlloc := 512\<rparr>)"
  let ?st1 = "snd (encodeStr ?e initial_state (replicate 1024 97))"
  have c: "bufferAlloc ?st1 = 1536"
    by (simp add: encodeStr_bufferAlloc Encoder_fields js_length_replicate units_def
        initial_state_def js_eval)
  have 1: "map bufferAlloc
     (encode_calls ?e initial_state [JString (replicate 1024 97), JString (replicate 2048 97)])
   = [1536, 1024]"
    by (simp add: Let_def encodeStr_bufferAlloc Encoder_fields js_length_replicate units_def
        initial_state_def js_eval)
  have a: "bufferMinLen ?e \<le> js_length (replicate 2048 97)"
    "bufferAlloc ?st1 < js_length (replicate 2048 97)"
    by (simp_all add: c Encoder_fields js_length_replicate units_def)
  have u: "utf8 97 = [0x61]" by (simp add: utf8_def)
  have 2: "fst (encodeStr ?e ?st1 (replicate 2048 97))
             = Inr ([0xda, 0x04, 0x00] @ concat (replicate 1024 [0x61]))"
    unfolding encodeStr_grow(1)[OF a]
    by (simp add: Encoder_fields js_length_replicate units_def utf8_fit_replicate u
        length_concat sum_list_replicate encodeStr_prefix_def js_eval)
  show ?thesis using 1 2 by simp
qed

text \<open>
  When the minimum allocation size is 0 or at least 1024 (the default is 2048), the handler,
  the key encoder and the codecs keep the recorded capacity, and the strings are shorter
  than \<open>2^30\<close> code units, the recorded capacity does not shrink over a sequence of calls
  from the construction of the encoder.
\<close>

lemma capacity_grows:
  assumes "bufferMinAlloc e = 0 \<or> 1024 \<le> bufferMinAlloc e"
    and "callbacks_keep_capacity e"
    and "list_all host_strings vs"
  shows "sorted (map bufferAlloc (initial_state # encode_calls e initial_state vs))"
  using encode_calls_sorted[OF assms, of initial_state] by (simp add: initial_state_def)

lemma capacity_grows_example:
  "callbacks_keep_capacity
     ((Encoder V8_6_2 standin_encoders default_options)\<lparr>codecs := Some [UndefinedCodec]\<rparr>)
   \<and> list_all host_strings
       [JString (replicate 1024 97), JArray [JString (replicate 2048 0x20AC), JNull],
        JObject ''Object'' [([107], JString (replicate 5000 97))]]
   \<and> sorted (map bufferAlloc (initial_state #
        encode_calls ((Encoder V8_6_2 standin_encoders default_options)\<lparr>codecs := Some [UndefinedCodec]\<rparr>)
          initial_state
          [JString (replicate 1024 97), JArray [JString (replicate 2048 0x20AC), JNull],
           JObject ''Object'' [([107], JString (replicate 5000 97))]]))"
proof -
  let ?e = "(Encoder V8_6_2 standin_encoders default_options)\<lparr>codecs := Some [UndefinedCodec]\<rparr>"
  let ?vs = "[JString (replicate 1024 97), JArray [JString (replicate 2048 0x20AC), JNull],
        JObject ''Object'' [([107], JString (replicate 5000 97))]]"
  have a: "bufferMinAlloc ?e = 0 \<or> 1024 \<le> bufferMinAlloc ?e"
    by (simp add: Encoder_fields)
  have c: "callbacks_keep_capacity ?e"
    by (simp add: callbacks_keep_capacity_def keeps_capacity_def capacity_kept_refl Encoder_def
        default_options_def throwsEncoderHandler_def standin_encoders_def UndefinedCodec_def
        split: sum.split)
  have h: "list_all host_strings ?vs"
    by (simp add: js_length_replicate units_def js_length_def sum_list_replicate)
  show ?thesis using c h capacity_grows[OF a c h] by simp
qed


end
